theory Spec2Isabelle
  imports Main "HOL-Library.Word"
begin

unbundle bit_operations_syntax

section \<open>Data model\<close>

text \<open>
  Package b32 of the repository (file b32.go): a loop-unrolled conversion between a
  \<open>uint64\<close> and its 13-symbol base32 text. Go's \<open>byte\<close> is an 8-bit word, \<open>uint64\<close> a
  64-bit word, a slice \<open>[]byte\<close> a list of bytes whose length is \<open>len\<close>.
\<close>

type_synonym byte = "8 word"
type_synonym uint64 = "64 word"

text \<open>
  An index expression \<open>a[i]\<close> with \<open>i\<close> outside \<open>0 .. len(a) - 1\<close> raises a run-time panic
  in Go. It is the only failure the package can reach, so a computation returns
  \<open>Inl IndexOutOfRange\<close> for the panic and \<open>Inr\<close> of its value otherwise.
\<close>

datatype error = IndexOutOfRange

definition bind :: "error + 'a \<Rightarrow> ('a \<Rightarrow> error + 'b) \<Rightarrow> error + 'b" where
  "bind m f = (case m of Inl e \<Rightarrow> Inl e | Inr x \<Rightarrow> f x)"

text \<open>Reading \<open>a[i]\<close> and executing \<open>a[i] = v\<close>, both with Go's bounds check.\<close>

definition index :: "byte list \<Rightarrow> nat \<Rightarrow> error + byte" where
  "index a i = (if i < length a then Inr (a ! i) else Inl IndexOutOfRange)"

definition assign :: "byte list \<Rightarrow> nat \<Rightarrow> error + byte \<Rightarrow> error + byte list" where
  "assign a i rhs =
     bind rhs (\<lambda>v. if i < length a then Inr (a[i := v]) else Inl IndexOutOfRange)"

text \<open>The conversions \<open>[]byte(s)\<close> and \<open>string(b)\<close> between a string and its bytes.\<close>

definition bytes_of_string :: "string \<Rightarrow> byte list" where
  "bytes_of_string s = map (\<lambda>c. of_nat (of_char c)) s"

definition string_of_bytes :: "byte list \<Rightarrow> string" where
  "string_of_bytes b = map (\<lambda>c. char_of (unat c)) b"

section \<open>The alphabet and the two tables\<close>

definition StdEncoding :: string where
  "StdEncoding = ''abcdefghijklmnopqrstuvwxyz234567''"

text \<open>
  The built-in \<open>copy(dst, src)\<close> copies \<open>min(len(dst), len(src))\<close> elements, and
  \<open>bytes.IndexByte(b, c)\<close> of the standard library returns the index of the first
  instance of \<open>c\<close> in \<open>b\<close>, or \<open>-1\<close> when \<open>c\<close> is not present in \<open>b\<close>.
\<close>

definition copy :: "byte list \<Rightarrow> byte list \<Rightarrow> byte list" where
  "copy dst src =
     take (min (length dst) (length src)) src @ drop (min (length dst) (length src)) dst"

fun IndexByte_from :: "nat \<Rightarrow> byte list \<Rightarrow> byte \<Rightarrow> int" where
  "IndexByte_from i [] c = - 1"
| "IndexByte_from i (x # xs) c = (if x = c then int i else IndexByte_from (Suc i) xs c)"

definition IndexByte :: "byte list \<Rightarrow> byte \<Rightarrow> int" where
  "IndexByte b c = IndexByte_from 0 b c"

text \<open>
  The package variables \<open>encMap [32]byte\<close> and \<open>decMap [256]byte\<close> start zeroed; the
  package's \<open>init\<close> function fills them before any other function of the package can
  run. \<open>encMap\<close> and \<open>decMap\<close> below are the tables as \<open>init\<close> leaves them: the copy of
  the alphabet, and the loop \<open>for i := range 256\<close> storing
  \<open>byte(bytes.IndexByte(encMap[:], byte(i)))\<close> at index \<open>i\<close>. The conversion \<open>byte(k)\<close>
  of an \<open>int\<close> keeps the low 8 bits, so \<open>byte(-1)\<close> is 255.
\<close>

definition encMap :: "byte list" where
  "encMap = copy (replicate 32 0) (bytes_of_string StdEncoding)"

definition decMap :: "byte list" where
  "decMap =
     fold (\<lambda>i d. d[i := word_of_int (IndexByte encMap (of_nat i))]) [0..<256]
       (replicate 256 0)"

section \<open>Encoding\<close>

text \<open>
  \<open>EncodeUint64(n, dst)\<close>: thirteen assignments, from \<open>dst[12]\<close> down to \<open>dst[0]\<close>, in the
  order of the source. The function returns the destination slice as it leaves it.
\<close>

definition EncodeUint64 :: "uint64 \<Rightarrow> byte list \<Rightarrow> error + byte list" where
  "EncodeUint64 n dst =
     bind (assign dst 12 (index encMap (unat (push_bit 1 (n AND 0xf))))) (\<lambda>dst.
     bind (assign dst 11 (index encMap (unat ((drop_bit 4 n) AND 0x1f)))) (\<lambda>dst.
     bind (assign dst 10 (index encMap (unat ((drop_bit 9 n) AND 0x1f)))) (\<lambda>dst.
     bind (assign dst 9 (index encMap (unat ((drop_bit 14 n) AND 0x1f)))) (\<lambda>dst.
     bind (assign dst 8 (index encMap (unat ((drop_bit 19 n) AND 0x1f)))) (\<lambda>dst.
     bind (assign dst 7 (index encMap (unat ((drop_bit 24 n) AND 0x1f)))) (\<lambda>dst.
     bind (assign dst 6 (index encMap (unat ((drop_bit 29 n) AND 0x1f)))) (\<lambda>dst.
     bind (assign dst 5 (index encMap (unat ((drop_bit 34 n) AND 0x1f)))) (\<lambda>dst.
     bind (assign dst 4 (index encMap (unat ((drop_bit 39 n) AND 0x1f)))) (\<lambda>dst.
     bind (assign dst 3 (index encMap (unat ((drop_bit 44 n) AND 0x1f)))) (\<lambda>dst.
     bind (assign dst 2 (index encMap (unat ((drop_bit 49 n) AND 0x1f)))) (\<lambda>dst.
     bind (assign dst 1 (index encMap (unat ((drop_bit 54 n) AND 0x1f)))) (\<lambda>dst.
     bind (assign dst 0 (index encMap (unat (drop_bit 59 n)))) (\<lambda>dst.
     Inr dst)))))))))))))"

text \<open>\<open>EncodeUint64ToString\<close>: encode into a fresh zeroed \<open>[13]byte\<close> and convert it.\<close>

definition EncodeUint64ToString :: "uint64 \<Rightarrow> error + string" where
  "EncodeUint64ToString n =
     bind (EncodeUint64 n (replicate 13 0)) (\<lambda>buf. Inr (string_of_bytes buf))"

section \<open>Decoding\<close>

text \<open>The expression \<open>decMap[src[i]]\<close>: two index expressions, the inner one first.\<close>

definition lookup :: "byte list \<Rightarrow> nat \<Rightarrow> error + byte" where
  "lookup src i = bind (index src i) (\<lambda>c. index decMap (unat c))"

text \<open>
  \<open>DecodeUint64(src)\<close>: the operands of the two expressions are evaluated from left to
  right, first the thirteen of \<open>n\<close>, then the fifteen of \<open>m\<close> (positions 9 and 8 occur
  twice there). \<open>uint64(b)\<close> of a byte is the zero extension \<open>ucast\<close>.
\<close>

definition DecodeUint64 :: "byte list \<Rightarrow> error + (uint64 \<times> bool)" where
  "DecodeUint64 src =
     bind (lookup src 12) (\<lambda>a12.
     bind (lookup src 11) (\<lambda>a11.
     bind (lookup src 10) (\<lambda>a10.
     bind (lookup src 9) (\<lambda>a9.
     bind (lookup src 8) (\<lambda>a8.
     bind (lookup src 7) (\<lambda>a7.
     bind (lookup src 6) (\<lambda>a6.
     bind (lookup src 5) (\<lambda>a5.
     bind (lookup src 4) (\<lambda>a4.
     bind (lookup src 3) (\<lambda>a3.
     bind (lookup src 2) (\<lambda>a2.
     bind (lookup src 1) (\<lambda>a1.
     bind (lookup src 0) (\<lambda>a0.
     let n = (drop_bit 1 (ucast a12 :: uint64)) OR
             (push_bit 4 (ucast a11)) OR
             (push_bit 9 (ucast a10)) OR
             (push_bit 14 (ucast a9)) OR
             (push_bit 19 (ucast a8)) OR
             (push_bit 24 (ucast a7)) OR
             (push_bit 29 (ucast a6)) OR
             (push_bit 34 (ucast a5)) OR
             (push_bit 39 (ucast a4)) OR
             (push_bit 44 (ucast a3)) OR
             (push_bit 49 (ucast a2)) OR
             (push_bit 54 (ucast a1)) OR
             (push_bit 59 (ucast a0)) in
     bind (lookup src 12) (\<lambda>b12.
     bind (lookup src 11) (\<lambda>b11.
     bind (lookup src 10) (\<lambda>b10.
     bind (lookup src 9) (\<lambda>b9.
     bind (lookup src 8) (\<lambda>b8.
     bind (lookup src 9) (\<lambda>c9.
     bind (lookup src 8) (\<lambda>c8.
     bind (lookup src 7) (\<lambda>b7.
     bind (lookup src 6) (\<lambda>b6.
     bind (lookup src 5) (\<lambda>b5.
     bind (lookup src 4) (\<lambda>b4.
     bind (lookup src 3) (\<lambda>b3.
     bind (lookup src 2) (\<lambda>b2.
     bind (lookup src 1) (\<lambda>b1.
     bind (lookup src 0) (\<lambda>b0.
     let m = b12 OR b11 OR b10 OR b9 OR
             b8 OR c9 OR c8 OR b7 OR
             b6 OR b5 OR b4 OR b3 OR
             b2 OR b1 OR b0 in
     Inr (n, m AND 0xe0 = 0)))))))))))))))))))))))))))))"

text \<open>\<open>DecodeUint64FromString(s)\<close> decodes the bytes of the string.\<close>

definition DecodeUint64FromString :: "string \<Rightarrow> error + (uint64 \<times> bool)" where
  "DecodeUint64FromString s = DecodeUint64 (bytes_of_string s)"

section \<open>The decoder with a plain validity accumulator\<close>

text \<open>
  The specification's reading of the decoder: look each of the thirteen positions up once,
  rebuild the value with the same shifts, and take as validity accumulator the
  OR-reduction of the thirteen raw lookups, none of them twice.
\<close>

definition DecodeUint64_straight :: "byte list \<Rightarrow> error + (uint64 \<times> bool)" where
  "DecodeUint64_straight src =
     bind (lookup src 12) (\<lambda>a12.
     bind (lookup src 11) (\<lambda>a11.
     bind (lookup src 10) (\<lambda>a10.
     bind (lookup src 9) (\<lambda>a9.
     bind (lookup src 8) (\<lambda>a8.
     bind (lookup src 7) (\<lambda>a7.
     bind (lookup src 6) (\<lambda>a6.
     bind (lookup src 5) (\<lambda>a5.
     bind (lookup src 4) (\<lambda>a4.
     bind (lookup src 3) (\<lambda>a3.
     bind (lookup src 2) (\<lambda>a2.
     bind (lookup src 1) (\<lambda>a1.
     bind (lookup src 0) (\<lambda>a0.
     let n = (drop_bit 1 (ucast a12 :: uint64)) OR
             (push_bit 4 (ucast a11)) OR
             (push_bit 9 (ucast a10)) OR
             (push_bit 14 (ucast a9)) OR
             (push_bit 19 (ucast a8)) OR
             (push_bit 24 (ucast a7)) OR
             (push_bit 29 (ucast a6)) OR
             (push_bit 34 (ucast a5)) OR
             (push_bit 39 (ucast a4)) OR
             (push_bit 44 (ucast a3)) OR
             (push_bit 49 (ucast a2)) OR
             (push_bit 54 (ucast a1)) OR
             (push_bit 59 (ucast a0));
         m = fold (OR) [a12, a11, a10, a9, a8, a7, a6, a5, a4, a3, a2, a1, a0] 0 in
     Inr (n, m AND 0xe0 = 0))))))))))))))"

section \<open>Auxiliary facts\<close>

subsection \<open>The error monad and the tables\<close>

lemma bind_Inr [simp]: "bind (Inr x) f = f x"
  by (simp add: bind_def)

lemma bind_Inl [simp]: "bind (Inl e) f = Inl e"
  by (simp add: bind_def)

lemma encMap_eq: "encMap = bytes_of_string StdEncoding"
  by (simp add: encMap_def copy_def bytes_of_string_def StdEncoding_def)

lemma length_encMap: "length encMap = 32"
  by (simp add: encMap_eq bytes_of_string_def StdEncoding_def)

lemma distinct_encMap: "distinct encMap"
  by (simp add: encMap_eq bytes_of_string_def StdEncoding_def)

lemma fold_update_length:
  "length (fold (\<lambda>i d. d[i := f i]) is d) = length d"
  by (induction "is" arbitrary: d) simp_all

lemma fold_update_upt:
  "k < n \<Longrightarrow> n \<le> length d \<Longrightarrow> fold (\<lambda>i d. d[i := f i]) [0..<n] d ! k = f k"
proof (induction n)
  case 0
  then show ?case by simp
next
  case (Suc n)
  show ?case
  proof (cases "k = n")
    case True
    with Suc.prems show ?thesis by (simp add: fold_update_length)
  next
    case False
    with Suc show ?thesis by simp
  qed
qed

lemma length_decMap: "length decMap = 256"
  by (simp add: decMap_def fold_update_length)

lemma unat_byte_less: "unat (b :: byte) < 256"
  using unsigned_less [of b, where ?'a = nat] by simp

lemma decMap_nth: "decMap ! unat b = word_of_int (IndexByte encMap b)"
  using unat_byte_less [of b] by (simp add: decMap_def fold_update_upt)

lemma IndexByte_from_absent: "c \<notin> set xs \<Longrightarrow> IndexByte_from i xs c = - 1"
  by (induction xs arbitrary: i) auto

lemma IndexByte_from_nth:
  "distinct xs \<Longrightarrow> k < length xs \<Longrightarrow> IndexByte_from i xs (xs ! k) = int (i + k)"
proof (induction xs arbitrary: i k)
  case Nil
  then show ?case by simp
next
  case (Cons x xs)
  show ?case
  proof (cases k)
    case 0
    then show ?thesis by simp
  next
    case (Suc j)
    with Cons.prems have "xs ! j \<noteq> x" by auto
    with Cons Suc show ?thesis by auto
  qed
qed

lemma decMap_absent: "c \<notin> set encMap \<Longrightarrow> decMap ! unat c = 255"
  by (simp add: decMap_nth IndexByte_def IndexByte_from_absent)

lemma decMap_encMap: "k < 32 \<Longrightarrow> decMap ! unat (encMap ! k) = of_nat k"
  by (simp add: decMap_nth IndexByte_def IndexByte_from_nth distinct_encMap length_encMap)

lemma index_decMap: "index decMap (unat (c :: byte)) = Inr (decMap ! unat c)"
  by (simp add: index_def length_decMap unat_byte_less)

lemma lookup_in_range: "i < length src \<Longrightarrow> lookup src i = Inr (decMap ! unat (src ! i))"
  by (simp add: lookup_def index_decMap) (simp add: index_def)

lemma lookup_out_of_range: "length src \<le> i \<Longrightarrow> lookup src i = Inl IndexOutOfRange"
  by (simp add: lookup_def index_def)

subsection \<open>Five-bit groups\<close>

lemma unat_group_less: "g AND mask 5 = g \<Longrightarrow> unat g < 32" for g :: uint64
proof -
  assume "g AND mask 5 = g"
  then have "g = take_bit 5 g" by (simp add: take_bit_eq_mask)
  then have "unat g = take_bit 5 (unat g)" by (metis unsigned_take_bit_eq)
  then have "unat g < 2 ^ 5" by (metis take_bit_nat_less_exp)
  then show ?thesis by simp
qed

lemma mask5: "(0x1f :: uint64) = mask 5"
  by (simp add: mask_eq_exp_minus_1)

lemma mask4: "(0xf :: uint64) = mask 4"
  by (simp add: mask_eq_exp_minus_1)

lemma group_mid: "unat (drop_bit k n AND 0x1f) < 32" for n :: uint64
  by (rule unat_group_less) (simp add: mask5 and.assoc)

lemma group_top: "unat (drop_bit 59 n) < 32" for n :: uint64
  by (rule unat_group_less, rule bit_word_eqI)
    (auto simp: bit_simps dest: bit_imp_le_length)

lemma push_bit_mask_absorb:
  "push_bit k (n AND mask j) AND mask (k + j) = push_bit k (n AND mask j)"
  for n :: "'a::len word"
  by (rule bit_word_eqI) (auto simp: bit_simps)

lemma group_low: "unat (push_bit 1 (n AND 0xf)) < 32" for n :: uint64
  unfolding mask4
  using push_bit_mask_absorb [of 1 n 4] by (intro unat_group_less) simp

lemma index_encMap: "unat g < 32 \<Longrightarrow> index encMap (unat g) = Inr (encMap ! unat g)"
  by (simp add: index_def length_encMap)

subsection \<open>Closed forms of the two functions\<close>

lemma enc_low:
  "index encMap (unat (push_bit 1 (n AND 0xf))) = Inr (encMap ! unat (push_bit 1 (n AND 0xf)))"
  for n :: uint64
  by (rule index_encMap) (rule group_low)

lemma enc_mid:
  "index encMap (unat (drop_bit k n AND 0x1f)) = Inr (encMap ! unat (drop_bit k n AND 0x1f))"
  for n :: uint64
  by (rule index_encMap) (rule group_mid)

lemma enc_top:
  "index encMap (unat (drop_bit 59 n)) = Inr (encMap ! unat (drop_bit 59 n))"
  for n :: uint64
  by (rule index_encMap) (rule group_top)

lemma EncodeUint64_closed:
  "13 \<le> length dst \<Longrightarrow>
   EncodeUint64 n dst =
     Inr (dst[12 := encMap ! unat (push_bit 1 (n AND 0xf)),
              11 := encMap ! unat ((drop_bit 4 n) AND 0x1f),
              10 := encMap ! unat ((drop_bit 9 n) AND 0x1f),
              9 := encMap ! unat ((drop_bit 14 n) AND 0x1f),
              8 := encMap ! unat ((drop_bit 19 n) AND 0x1f),
              7 := encMap ! unat ((drop_bit 24 n) AND 0x1f),
              6 := encMap ! unat ((drop_bit 29 n) AND 0x1f),
              5 := encMap ! unat ((drop_bit 34 n) AND 0x1f),
              4 := encMap ! unat ((drop_bit 39 n) AND 0x1f),
              3 := encMap ! unat ((drop_bit 44 n) AND 0x1f),
              2 := encMap ! unat ((drop_bit 49 n) AND 0x1f),
              1 := encMap ! unat ((drop_bit 54 n) AND 0x1f),
              0 := encMap ! unat (drop_bit 59 n)])"
  unfolding EncodeUint64_def enc_low enc_mid enc_top assign_def bind_Inr
  by (simp del: length_greater_0_conv add: length_greater_0_conv [symmetric])

lemma EncodeUint64_short:
  "length dst < 13 \<Longrightarrow> EncodeUint64 n dst = Inl IndexOutOfRange"
  unfolding EncodeUint64_def enc_low enc_mid enc_top assign_def bind_Inr
  by simp

lemma DecodeUint64_closed:
  "13 \<le> length src \<Longrightarrow>
   DecodeUint64 src =
     Inr ((drop_bit 1 (ucast (decMap ! unat (src ! 12)) :: uint64)) OR
          (push_bit 4 (ucast (decMap ! unat (src ! 11)))) OR
          (push_bit 9 (ucast (decMap ! unat (src ! 10)))) OR
          (push_bit 14 (ucast (decMap ! unat (src ! 9)))) OR
          (push_bit 19 (ucast (decMap ! unat (src ! 8)))) OR
          (push_bit 24 (ucast (decMap ! unat (src ! 7)))) OR
          (push_bit 29 (ucast (decMap ! unat (src ! 6)))) OR
          (push_bit 34 (ucast (decMap ! unat (src ! 5)))) OR
          (push_bit 39 (ucast (decMap ! unat (src ! 4)))) OR
          (push_bit 44 (ucast (decMap ! unat (src ! 3)))) OR
          (push_bit 49 (ucast (decMap ! unat (src ! 2)))) OR
          (push_bit 54 (ucast (decMap ! unat (src ! 1)))) OR
          (push_bit 59 (ucast (decMap ! unat (src ! 0)))),
          (decMap ! unat (src ! 12) OR decMap ! unat (src ! 11) OR
           decMap ! unat (src ! 10) OR decMap ! unat (src ! 9) OR
           decMap ! unat (src ! 8) OR decMap ! unat (src ! 9) OR
           decMap ! unat (src ! 8) OR decMap ! unat (src ! 7) OR
           decMap ! unat (src ! 6) OR decMap ! unat (src ! 5) OR
           decMap ! unat (src ! 4) OR decMap ! unat (src ! 3) OR
           decMap ! unat (src ! 2) OR decMap ! unat (src ! 1) OR
           decMap ! unat (src ! 0)) AND 0xe0 = 0)"
proof -
  assume "13 \<le> length src"
  then have l: "lookup src i = Inr (decMap ! unat (src ! i))" if "i < 13" for i
    using that by (simp add: lookup_in_range)
  show ?thesis
    unfolding DecodeUint64_def by (simp add: l Let_def)
qed

lemma DecodeUint64_short:
  "length src < 13 \<Longrightarrow> DecodeUint64 src = Inl IndexOutOfRange"
  by (simp add: DecodeUint64_def lookup_out_of_range)

subsection \<open>Validity of a looked-up byte and reassembly of the groups\<close>

lemma or_and_eq_0_iff: "(a OR b) AND c = 0 \<longleftrightarrow> a AND c = 0 \<and> b AND c = 0"
  for a b c :: "'a::len word"
  by (simp add: bit.conj_disj_distrib2 or_eq_0_iff)

lemma small_byte_valid: "k < 32 \<Longrightarrow> (of_nat k :: byte) AND 0xe0 = 0"
proof -
  assume "k < 32"
  then have "k < 2 ^ 5" by simp
  then have "take_bit 5 k = k" by (simp only: take_bit_nat_eq_self)
  then have "(of_nat k :: byte) = take_bit 5 (of_nat k)"
    by (metis of_nat_take_bit)
  moreover have "take_bit 5 w AND 0xe0 = 0" for w :: byte
  proof -
    have e: "(0xe0 :: byte) = push_bit 5 (mask 3)" by (simp add: mask_eq_exp_minus_1)
    have "take_bit 5 w AND push_bit 5 (mask 3) = 0"
      by (rule bit_word_eqI) (auto simp: bit_simps)
    then show ?thesis by (simp only: e)
  qed
  ultimately show ?thesis by metis
qed

lemma sentinel_invalid: "(255 :: byte) AND 0xe0 \<noteq> 0"
  by simp

lemma valid_byte_iff: "decMap ! unat c AND 0xe0 = 0 \<longleftrightarrow> c \<in> set encMap"
proof
  assume "c \<in> set encMap"
  then obtain k where "k < 32" "c = encMap ! k"
    by (auto simp: in_set_conv_nth length_encMap)
  then show "decMap ! unat c AND 0xe0 = 0"
    by (simp only: decMap_encMap small_byte_valid)
next
  assume v: "decMap ! unat c AND 0xe0 = 0"
  show "c \<in> set encMap"
  proof (rule ccontr)
    assume "c \<notin> set encMap"
    then have "decMap ! unat c = 255" by (rule decMap_absent)
    with v sentinel_invalid show False by simp
  qed
qed

lemma dec_enc_group:
  "unat g < 32 \<Longrightarrow> ucast (decMap ! unat (encMap ! unat g)) = g" for g :: uint64
proof -
  assume g: "unat g < 32"
  then have "decMap ! unat (encMap ! unat g) = of_nat (unat g)"
    by (rule decMap_encMap)
  then have "ucast (decMap ! unat (encMap ! unat g)) = (ucast (ucast g :: byte) :: uint64)"
    by simp
  also have "\<dots> = take_bit 8 g"
    by (rule bit_word_eqI) (auto simp: bit_simps)
  also have "\<dots> = g"
  proof -
    from g have "unat g < 2 ^ 8" by simp
    then have "g < 2 ^ 8" by (simp add: word_less_nat_alt)
    then show ?thesis using less_mask_eq [of g 8] by (simp add: take_bit_eq_mask)
  qed
  finally show ?thesis .
qed

lemma step:
  "(n AND mask k) OR push_bit k (drop_bit k n AND mask 5) = n AND mask (k + 5)"
  for n :: "'a::len word"
  by (rule bit_word_eqI) (auto simp: bit_simps)

lemma first_step:
  "k + j \<le> LENGTH('a) \<Longrightarrow> drop_bit k (push_bit k (n AND mask j)) = n AND mask j"
  for n :: "'a::len word"
  by (rule bit_word_eqI) (auto simp: bit_simps)

lemma last_step: "(n AND mask k) OR push_bit k (drop_bit k n) = n" for n :: "'a::len word"
proof (rule bit_word_eqI)
  fix i
  assume len: "i < LENGTH('a)"
  show "bit ((n AND mask k) OR push_bit k (drop_bit k n)) i = bit n i"
  proof (cases "i < k")
    case True
    with len show ?thesis by (auto simp: bit_simps)
  next
    case False
    then have "k + (i - k) = i" by simp
    with False len show ?thesis by (auto simp: bit_simps)
  qed
qed

lemma regroup:
  "(drop_bit 1 (push_bit 1 (n AND 0xf))) OR
   (push_bit 4 ((drop_bit 4 n) AND 0x1f)) OR
   (push_bit 9 ((drop_bit 9 n) AND 0x1f)) OR
   (push_bit 14 ((drop_bit 14 n) AND 0x1f)) OR
   (push_bit 19 ((drop_bit 19 n) AND 0x1f)) OR
   (push_bit 24 ((drop_bit 24 n) AND 0x1f)) OR
   (push_bit 29 ((drop_bit 29 n) AND 0x1f)) OR
   (push_bit 34 ((drop_bit 34 n) AND 0x1f)) OR
   (push_bit 39 ((drop_bit 39 n) AND 0x1f)) OR
   (push_bit 44 ((drop_bit 44 n) AND 0x1f)) OR
   (push_bit 49 ((drop_bit 49 n) AND 0x1f)) OR
   (push_bit 54 ((drop_bit 54 n) AND 0x1f)) OR
   (push_bit 59 (drop_bit 59 n)) = n" for n :: uint64
proof -
  have s0: "drop_bit 1 (push_bit 1 (n AND mask 4)) = n AND mask 4"
    by (rule first_step) simp
  have s4: "(n AND mask 4) OR push_bit 4 (drop_bit 4 n AND mask 5) = n AND mask 9"
    using step [of n 4] by simp
  have s9: "(n AND mask 9) OR push_bit 9 (drop_bit 9 n AND mask 5) = n AND mask 14"
    using step [of n 9] by simp
  have s14: "(n AND mask 14) OR push_bit 14 (drop_bit 14 n AND mask 5) = n AND mask 19"
    using step [of n 14] by simp
  have s19: "(n AND mask 19) OR push_bit 19 (drop_bit 19 n AND mask 5) = n AND mask 24"
    using step [of n 19] by simp
  have s24: "(n AND mask 24) OR push_bit 24 (drop_bit 24 n AND mask 5) = n AND mask 29"
    using step [of n 24] by simp
  have s29: "(n AND mask 29) OR push_bit 29 (drop_bit 29 n AND mask 5) = n AND mask 34"
    using step [of n 29] by simp
  have s34: "(n AND mask 34) OR push_bit 34 (drop_bit 34 n AND mask 5) = n AND mask 39"
    using step [of n 34] by simp
  have s39: "(n AND mask 39) OR push_bit 39 (drop_bit 39 n AND mask 5) = n AND mask 44"
    using step [of n 39] by simp
  have s44: "(n AND mask 44) OR push_bit 44 (drop_bit 44 n AND mask 5) = n AND mask 49"
    using step [of n 44] by simp
  have s49: "(n AND mask 49) OR push_bit 49 (drop_bit 49 n AND mask 5) = n AND mask 54"
    using step [of n 49] by simp
  have s54: "(n AND mask 54) OR push_bit 54 (drop_bit 54 n AND mask 5) = n AND mask 59"
    using step [of n 54] by simp
  have s59: "(n AND mask 59) OR push_bit 59 (drop_bit 59 n) = n"
    by (rule last_step)
  show ?thesis
    unfolding mask4 mask5
    by (simp only: or.assoc [symmetric] s0 s4 s9 s14 s19 s24 s29 s34 s39 s44 s49 s54 s59)
qed

lemma enc_symbol_valid: "unat g < 32 \<Longrightarrow> decMap ! unat (encMap ! unat g) AND 0xe0 = 0"
  for g :: uint64
  by (simp only: decMap_encMap small_byte_valid)

subsection \<open>Lists of thirteen bytes\<close>

lemma overwrite13:
  "13 \<le> length dst \<Longrightarrow>
   dst[12 := x12, 11 := x11, 10 := x10, 9 := x9, 8 := x8, 7 := x7, 6 := x6, 5 := x5,
       4 := x4, 3 := x3, 2 := x2, 1 := x1, 0 := x0] =
   [x0, x1, x2, x3, x4, x5, x6, x7, x8, x9, x10, x11, x12] @ drop 13 dst"
  by (auto simp: numeral_eq_Suc Suc_le_length_iff)

lemma subset13:
  "length xs = 13 \<Longrightarrow>
   set xs \<subseteq> A \<longleftrightarrow>
     xs ! 12 \<in> A \<and> xs ! 11 \<in> A \<and> xs ! 10 \<in> A \<and> xs ! 9 \<in> A \<and> xs ! 8 \<in> A \<and>
     xs ! 7 \<in> A \<and> xs ! 6 \<in> A \<and> xs ! 5 \<in> A \<and> xs ! 4 \<in> A \<and> xs ! 3 \<in> A \<and>
     xs ! 2 \<in> A \<and> xs ! 1 \<in> A \<and> xs ! 0 \<in> A"
  by (auto simp: numeral_eq_Suc length_Suc_conv)

lemma DecodeUint64_flag:
  "length src = 13 \<Longrightarrow>
   \<exists>v. DecodeUint64 src = Inr (v, set src \<subseteq> set encMap)"
proof -
  assume len: "length src = 13"
  then have "13 \<le> length src" by simp
  note closed = DecodeUint64_closed [OF this]
  show ?thesis
    unfolding closed
    by (simp only: or_and_eq_0_iff valid_byte_iff subset13 [OF len]) auto
qed

lemma drop_bit_ucast:
  "drop_bit 1 (ucast a :: uint64) = ucast (drop_bit 1 a)" for a :: byte
  by (rule bit_word_eqI) (auto simp: bit_simps dest: bit_imp_le_length)

lemma acc_dup:
  "b12 OR b11 OR b10 OR b9 OR b8 OR b9 OR b8 OR b7 OR b6 OR b5 OR b4 OR b3 OR b2 OR b1 OR b0 =
   fold (OR) [b12, b11, b10, b9, b8, b7, b6, b5, b4, b3, b2, b1, b0] 0"
  for b0 :: byte
  by (simp add: ac_simps)

lemma EncodeUint64_list:
  "13 \<le> length dst \<Longrightarrow>
   EncodeUint64 n dst =
     Inr ([encMap ! unat (drop_bit 59 n),
           encMap ! unat ((drop_bit 54 n) AND 0x1f),
           encMap ! unat ((drop_bit 49 n) AND 0x1f),
           encMap ! unat ((drop_bit 44 n) AND 0x1f),
           encMap ! unat ((drop_bit 39 n) AND 0x1f),
           encMap ! unat ((drop_bit 34 n) AND 0x1f),
           encMap ! unat ((drop_bit 29 n) AND 0x1f),
           encMap ! unat ((drop_bit 24 n) AND 0x1f),
           encMap ! unat ((drop_bit 19 n) AND 0x1f),
           encMap ! unat ((drop_bit 14 n) AND 0x1f),
           encMap ! unat ((drop_bit 9 n) AND 0x1f),
           encMap ! unat ((drop_bit 4 n) AND 0x1f),
           encMap ! unat (push_bit 1 (n AND 0xf))] @ drop 13 dst)"
  by (simp only: EncodeUint64_closed overwrite13)

lemma top_group_mask: "(drop_bit 59 n) AND 0x1f = drop_bit 59 n" for n :: uint64
  unfolding mask5 by (rule bit_word_eqI) (auto simp: bit_simps dest: bit_imp_le_length)

lemma low_group_even: "\<not> bit (push_bit 1 (n AND 0xf)) 0" for n :: uint64
  by (simp add: bit_simps)

lemma unat_small_byte: "k < 32 \<Longrightarrow> unat (of_nat k :: byte) = k"
  by (simp add: unat_of_nat)

section \<open>Round trip\<close>

text \<open>
  C1. For every 64-bit \<open>n\<close> and every destination of at least 13 bytes, \<open>EncodeUint64\<close>
  succeeds, and \<open>DecodeUint64\<close> applied to the buffer it has written succeeds and returns
  \<open>(n, true)\<close>.
\<close>

theorem roundtrip:
  "13 \<le> length dst \<Longrightarrow> bind (EncodeUint64 n dst) DecodeUint64 = Inr (n, True)"
proof -
  assume len: "13 \<le> length dst"
  then have ne: "dst \<noteq> []" by auto
  define g12 where "g12 = push_bit 1 (n AND 0xf)"
  define g11 where "g11 = (drop_bit 4 n) AND 0x1f"
  define g10 where "g10 = (drop_bit 9 n) AND 0x1f"
  define g9 where "g9 = (drop_bit 14 n) AND 0x1f"
  define g8 where "g8 = (drop_bit 19 n) AND 0x1f"
  define g7 where "g7 = (drop_bit 24 n) AND 0x1f"
  define g6 where "g6 = (drop_bit 29 n) AND 0x1f"
  define g5 where "g5 = (drop_bit 34 n) AND 0x1f"
  define g4 where "g4 = (drop_bit 39 n) AND 0x1f"
  define g3 where "g3 = (drop_bit 44 n) AND 0x1f"
  define g2 where "g2 = (drop_bit 49 n) AND 0x1f"
  define g1 where "g1 = (drop_bit 54 n) AND 0x1f"
  define g0 where "g0 = drop_bit 59 n"
  note gs = g12_def g11_def g10_def g9_def g8_def g7_def g6_def g5_def g4_def g3_def
    g2_def g1_def g0_def
  define buf where "buf = dst[12 := encMap ! unat g12, 11 := encMap ! unat g11,
    10 := encMap ! unat g10, 9 := encMap ! unat g9, 8 := encMap ! unat g8,
    7 := encMap ! unat g7, 6 := encMap ! unat g6, 5 := encMap ! unat g5,
    4 := encMap ! unat g4, 3 := encMap ! unat g3, 2 := encMap ! unat g2,
    1 := encMap ! unat g1, 0 := encMap ! unat g0]"
  have bound: "unat g12 < 32" "unat g11 < 32" "unat g10 < 32" "unat g9 < 32"
    "unat g8 < 32" "unat g7 < 32" "unat g6 < 32" "unat g5 < 32" "unat g4 < 32"
    "unat g3 < 32" "unat g2 < 32" "unat g1 < 32" "unat g0 < 32"
    unfolding gs by (rule group_low group_mid group_top)+
  have enc: "EncodeUint64 n dst = Inr buf"
    unfolding buf_def gs using len by (rule EncodeUint64_closed)
  have blen: "13 \<le> length buf"
    using len by (simp add: buf_def)
  have nth: "buf ! 12 = encMap ! unat g12" "buf ! 11 = encMap ! unat g11"
    "buf ! 10 = encMap ! unat g10" "buf ! 9 = encMap ! unat g9"
    "buf ! 8 = encMap ! unat g8" "buf ! 7 = encMap ! unat g7"
    "buf ! 6 = encMap ! unat g6" "buf ! 5 = encMap ! unat g5"
    "buf ! 4 = encMap ! unat g4" "buf ! 3 = encMap ! unat g3"
    "buf ! 2 = encMap ! unat g2" "buf ! 1 = encMap ! unat g1"
    "buf ! 0 = encMap ! unat g0"
    using len ne by (simp_all add: buf_def)
  have undo: "ucast (decMap ! unat (encMap ! unat g12)) = g12"
    "ucast (decMap ! unat (encMap ! unat g11)) = g11"
    "ucast (decMap ! unat (encMap ! unat g10)) = g10"
    "ucast (decMap ! unat (encMap ! unat g9)) = g9"
    "ucast (decMap ! unat (encMap ! unat g8)) = g8"
    "ucast (decMap ! unat (encMap ! unat g7)) = g7"
    "ucast (decMap ! unat (encMap ! unat g6)) = g6"
    "ucast (decMap ! unat (encMap ! unat g5)) = g5"
    "ucast (decMap ! unat (encMap ! unat g4)) = g4"
    "ucast (decMap ! unat (encMap ! unat g3)) = g3"
    "ucast (decMap ! unat (encMap ! unat g2)) = g2"
    "ucast (decMap ! unat (encMap ! unat g1)) = g1"
    "ucast (decMap ! unat (encMap ! unat g0)) = g0"
    using bound by (simp_all only: dec_enc_group)
  have valid: "decMap ! unat (encMap ! unat g12) AND 0xe0 = 0"
    "decMap ! unat (encMap ! unat g11) AND 0xe0 = 0"
    "decMap ! unat (encMap ! unat g10) AND 0xe0 = 0"
    "decMap ! unat (encMap ! unat g9) AND 0xe0 = 0"
    "decMap ! unat (encMap ! unat g8) AND 0xe0 = 0"
    "decMap ! unat (encMap ! unat g7) AND 0xe0 = 0"
    "decMap ! unat (encMap ! unat g6) AND 0xe0 = 0"
    "decMap ! unat (encMap ! unat g5) AND 0xe0 = 0"
    "decMap ! unat (encMap ! unat g4) AND 0xe0 = 0"
    "decMap ! unat (encMap ! unat g3) AND 0xe0 = 0"
    "decMap ! unat (encMap ! unat g2) AND 0xe0 = 0"
    "decMap ! unat (encMap ! unat g1) AND 0xe0 = 0"
    "decMap ! unat (encMap ! unat g0) AND 0xe0 = 0"
    using bound by (simp_all only: enc_symbol_valid)
  have val: "drop_bit 1 g12 OR push_bit 4 g11 OR push_bit 9 g10 OR push_bit 14 g9 OR
    push_bit 19 g8 OR push_bit 24 g7 OR push_bit 29 g6 OR push_bit 34 g5 OR
    push_bit 39 g4 OR push_bit 44 g3 OR push_bit 49 g2 OR push_bit 54 g1 OR
    push_bit 59 g0 = n"
    unfolding gs by (rule regroup)
  have "DecodeUint64 buf = Inr (n, True)"
    by (simp only: DecodeUint64_closed [OF blen] nth undo val or_and_eq_0_iff valid) simp
  with enc show ?thesis by simp
qed

theorem roundtrip_witness:
  "13 \<le> length (replicate 13 (0 :: byte)) \<and>
   bind (EncodeUint64 0x0102030405060708 (replicate 13 0)) DecodeUint64 =
     Inr (0x0102030405060708, True)"
  using roundtrip [of "replicate 13 0" "0x0102030405060708"] by simp

section \<open>Validation\<close>

text \<open>
  C2. On an input of exactly 13 bytes \<open>DecodeUint64\<close> returns, and its validity flag is
  true exactly when every one of the 13 bytes is a symbol of the alphabet \<open>StdEncoding\<close>;
  one byte outside the alphabet makes the flag false whatever the other twelve are.
\<close>

theorem valid_iff_alphabet:
  "length src = 13 \<Longrightarrow>
   \<exists>v. DecodeUint64 src = Inr (v, set src \<subseteq> set (bytes_of_string StdEncoding))"
  using DecodeUint64_flag [of src] by (simp only: encMap_eq)

theorem valid_iff_alphabet_witness:
  "length (bytes_of_string ''aaaaaaaaaaa8a'') = 13 \<and>
   (\<exists>v. DecodeUint64 (bytes_of_string ''aaaaaaaaaaa8a'') = Inr (v, False))"
  using valid_iff_alphabet [of "bytes_of_string ''aaaaaaaaaaa8a''"]
  by (simp add: bytes_of_string_def StdEncoding_def)

text \<open>
  C6. An input of 13 alphabet symbols is accepted whatever the lowest bit of the last
  symbol's 5-bit value is, and two such inputs that agree on positions 0 to 11 and whose
  last symbols have 5-bit values differing at most in that lowest bit decode to the same
  number.
\<close>

theorem low_bit_ignored:
  assumes "length s = 13" and "length t = 13"
    and "set s \<subseteq> set (bytes_of_string StdEncoding)"
    and "set t \<subseteq> set (bytes_of_string StdEncoding)"
    and "take 12 s = take 12 t"
    and "drop_bit 1 (decMap ! unat (s ! 12)) = drop_bit 1 (decMap ! unat (t ! 12))"
  shows "\<exists>v. DecodeUint64 s = Inr (v, True) \<and> DecodeUint64 t = Inr (v, True)"
proof -
  have nth: "s ! i = t ! i" if "i < 12" for i
    using that assms(5) by (metis nth_take)
  have eq: "s ! 11 = t ! 11" "s ! 10 = t ! 10" "s ! 9 = t ! 9" "s ! 8 = t ! 8"
    "s ! 7 = t ! 7" "s ! 6 = t ! 6" "s ! 5 = t ! 5" "s ! 4 = t ! 4" "s ! 3 = t ! 3"
    "s ! 2 = t ! 2" "s ! 1 = t ! 1" "s ! 0 = t ! 0"
    by (simp_all add: nth)
  have last: "drop_bit 1 (ucast (decMap ! unat (s ! 12)) :: uint64) =
      drop_bit 1 (ucast (decMap ! unat (t ! 12)))"
    by (simp only: drop_bit_ucast assms(6))
  from assms(1) have cs: "13 \<le> length s" by simp
  from assms(2) have ct: "13 \<le> length t" by simp
  have fs: "(set s \<subseteq> set encMap) = True" using assms(3) by (simp only: encMap_eq)
  have ft: "(set t \<subseteq> set encMap) = True" using assms(4) by (simp only: encMap_eq)
  from DecodeUint64_flag [OF assms(1)] obtain v where v: "DecodeUint64 s = Inr (v, True)"
    unfolding fs by blast
  from DecodeUint64_flag [OF assms(2)] obtain w where w: "DecodeUint64 t = Inr (w, True)"
    unfolding ft by blast
  have "v = w"
    using v w unfolding DecodeUint64_closed [OF cs] DecodeUint64_closed [OF ct] eq last
    by simp
  with v w show ?thesis by simp
qed

theorem low_bit_ignored_witness:
  "length (bytes_of_string ''aebagbafaydqr'') = 13 \<and>
   length (bytes_of_string ''aebagbafaydqq'') = 13 \<and>
   bytes_of_string ''aebagbafaydqr'' \<noteq> bytes_of_string ''aebagbafaydqq'' \<and>
   (\<exists>v. DecodeUint64 (bytes_of_string ''aebagbafaydqr'') = Inr (v, True) \<and>
        DecodeUint64 (bytes_of_string ''aebagbafaydqq'') = Inr (v, True))"
proof -
  have d: "decMap ! 113 = 16" "decMap ! 114 = 17"
    using decMap_nth [of 113] decMap_nth [of 114]
    by (simp_all add: IndexByte_def encMap_eq bytes_of_string_def StdEncoding_def)
  show ?thesis
    using low_bit_ignored [of "bytes_of_string ''aebagbafaydqr''"
        "bytes_of_string ''aebagbafaydqq''"]
    by (simp add: bytes_of_string_def StdEncoding_def d)
qed

text \<open>
  C7. The validity accumulator of \<open>DecodeUint64\<close>, in which the lookups of positions 9 and
  8 occur twice, gives the same result as the OR-reduction of the thirteen raw lookups:
  \<open>DecodeUint64\<close> and \<open>DecodeUint64_straight\<close> agree on every input, panics included.
\<close>

theorem duplicates_harmless: "DecodeUint64 src = DecodeUint64_straight src"
proof (cases "13 \<le> length src")
  case True
  then have l: "lookup src i = Inr (decMap ! unat (src ! i))" if "i < 13" for i
    using that by (simp add: lookup_in_range)
  show ?thesis
    unfolding DecodeUint64_def DecodeUint64_straight_def
    by (simp add: l Let_def acc_dup del: fold_simps)
next
  case False
  then have "lookup src 12 = Inl IndexOutOfRange"
    by (simp add: lookup_out_of_range)
  then show ?thesis
    by (simp add: DecodeUint64_def DecodeUint64_straight_def)
qed

text \<open>
  C9. \<open>DecodeUint64\<close> reads positions 0 to 12 only: on two inputs of at least 13 bytes with
  the same first 13 bytes it returns, with the same value and the same flag, whatever
  follows position 12.
\<close>

theorem prefix_only:
  assumes "13 \<le> length s" and "13 \<le> length t" and "take 13 s = take 13 t"
  shows "\<exists>r. DecodeUint64 s = Inr r \<and> DecodeUint64 t = Inr r"
proof -
  have eq: "s ! i = t ! i" if "i < 13" for i
    using that assms(3) by (metis nth_take)
  show ?thesis
    unfolding DecodeUint64_closed [OF assms(1)] DecodeUint64_closed [OF assms(2)]
    by (simp add: eq)
qed

theorem prefix_only_witness:
  "13 \<le> length (bytes_of_string ''aebagbafaydqq1'') \<and>
   13 \<le> length (bytes_of_string ''aebagbafaydqq'') \<and>
   (\<exists>r. DecodeUint64 (bytes_of_string ''aebagbafaydqq1'') = Inr r \<and>
        DecodeUint64 (bytes_of_string ''aebagbafaydqq'') = Inr r)"
  using prefix_only [of "bytes_of_string ''aebagbafaydqq1''" "bytes_of_string ''aebagbafaydqq''"]
  by (simp add: bytes_of_string_def)

section \<open>Test vectors\<close>

text \<open>
  C5. \<open>EncodeUint64ToString\<close> maps zero, the largest value, its predecessor and the known
  vector \<open>0x0102030405060708\<close> to the stated strings.
\<close>

theorem known_vectors:
  "EncodeUint64ToString 0x0000000000000000 = Inr ''aaaaaaaaaaaaa'' \<and>
   EncodeUint64ToString 0xffffffffffffffff = Inr ''7777777777776'' \<and>
   EncodeUint64ToString 0xfffffffffffffffe = Inr ''7777777777774'' \<and>
   EncodeUint64ToString 0x0102030405060708 = Inr ''aebagbafaydqq''"
proof -
  have len: "13 \<le> length (replicate 13 (0 :: byte))" by simp
  show ?thesis
    unfolding EncodeUint64ToString_def EncodeUint64_closed [OF len] overwrite13 [OF len]
    by (simp add: encMap_eq bytes_of_string_def StdEncoding_def string_of_bytes_def
        char_of_def bit_Suc_0_iff)
qed

section \<open>The thirteen groups\<close>

text \<open>
  C3. Into a destination of at least 13 bytes \<open>EncodeUint64\<close> writes, at each position
  \<open>i\<close> from 0 to 11, the entry of the encode table for \<open>n\<close> shifted right by \<open>59 - 5 i\<close>
  and masked to 5 bits (at position 0 the mask changes nothing), and at position 12 the
  entry for the lowest 4 bits of \<open>n\<close> shifted left by 1, a group whose lowest bit is 0.
  Every one of these table reads is within the table.
\<close>

theorem encode_groups:
  "13 \<le> length dst \<Longrightarrow>
   \<exists>buf. EncodeUint64 n dst = Inr buf \<and>
     (\<forall>i<12. index encMap (unat ((drop_bit (59 - 5 * i) n) AND 0x1f)) = Inr (buf ! i)) \<and>
     (drop_bit 59 n) AND 0x1f = drop_bit 59 n \<and>
     index encMap (unat (push_bit 1 (n AND 0xf))) = Inr (buf ! 12) \<and>
     \<not> bit (push_bit 1 (n AND 0xf)) 0"
proof -
  assume len: "13 \<le> length dst"
  define out where "out = [encMap ! unat (drop_bit 59 n),
           encMap ! unat ((drop_bit 54 n) AND 0x1f),
           encMap ! unat ((drop_bit 49 n) AND 0x1f),
           encMap ! unat ((drop_bit 44 n) AND 0x1f),
           encMap ! unat ((drop_bit 39 n) AND 0x1f),
           encMap ! unat ((drop_bit 34 n) AND 0x1f),
           encMap ! unat ((drop_bit 29 n) AND 0x1f),
           encMap ! unat ((drop_bit 24 n) AND 0x1f),
           encMap ! unat ((drop_bit 19 n) AND 0x1f),
           encMap ! unat ((drop_bit 14 n) AND 0x1f),
           encMap ! unat ((drop_bit 9 n) AND 0x1f),
           encMap ! unat ((drop_bit 4 n) AND 0x1f),
           encMap ! unat (push_bit 1 (n AND 0xf))]"
  have enc: "EncodeUint64 n dst = Inr (out @ drop 13 dst)"
    unfolding out_def using len by (rule EncodeUint64_list)
  have mid: "index encMap (unat ((drop_bit (59 - 5 * k) n) AND 0x1f)) =
      Inr ((out @ drop 13 dst) ! k)"
    if "k < 12" for k
  proof -
    from that have "k = 11 \<or> k = 10 \<or> k = 9 \<or> k = 8 \<or> k = 7 \<or> k = 6 \<or> k = 5 \<or>
        k = 4 \<or> k = 3 \<or> k = 2 \<or> k = 1 \<or> k = 0"
      by arith
    then show ?thesis
      unfolding enc_mid by (elim disjE) (simp_all add: out_def top_group_mask nth_append)
  qed
  have last: "index encMap (unat (push_bit 1 (n AND 0xf))) = Inr ((out @ drop 13 dst) ! 12)"
    unfolding enc_low by (simp add: out_def nth_append)
  from enc mid last top_group_mask [of n] low_group_even [of n] show ?thesis
    by blast
qed

theorem encode_groups_witness:
  "13 \<le> length (replicate 13 (0 :: byte)) \<and> (3 :: nat) < 12 \<and>
   (\<exists>buf. EncodeUint64 0x0102030405060708 (replicate 13 0) = Inr buf \<and>
      index encMap (unat ((drop_bit (59 - 5 * 3) (0x0102030405060708 :: uint64)) AND 0x1f)) =
        Inr (buf ! 3) \<and>
      index encMap (unat (push_bit 1 ((0x0102030405060708 :: uint64) AND 0xf))) =
        Inr (buf ! 12))"
proof -
  have len: "13 \<le> length (replicate 13 (0 :: byte))" by simp
  have i: "(3 :: nat) < 12" by simp
  from encode_groups [OF len, of "0x0102030405060708"] i len show ?thesis
    by blast
qed

section \<open>The tables after initialisation\<close>

text \<open>
  C4. The alphabet has 32 symbols, all different, and \<open>encMap\<close> is the alphabet. The decode
  table has 256 entries; decoding the symbol of any 5-bit value \<open>v\<close> gives \<open>v\<close>, encoding the
  decode-table entry of any symbol gives the symbol back, and every byte that is not a
  symbol has the entry 255, which is at least 32.
\<close>

theorem tables_inverse:
  "length (bytes_of_string StdEncoding) = 32 \<and>
   distinct (bytes_of_string StdEncoding) \<and>
   encMap = bytes_of_string StdEncoding \<and>
   length decMap = 256 \<and>
   (\<forall>v<32. index decMap (unat (encMap ! v)) = Inr (of_nat v)) \<and>
   (\<forall>c\<in>set encMap. index encMap (unat (decMap ! unat c)) = Inr c) \<and>
   (\<forall>c. c \<notin> set encMap \<longrightarrow> decMap ! unat c = 255 \<and> 32 \<le> decMap ! unat c)"
proof -
  have a: "index decMap (unat (encMap ! v)) = Inr (of_nat v)" if "v < 32" for v
    using that by (simp only: index_decMap decMap_encMap)
  have b: "index encMap (unat (decMap ! unat c)) = Inr c" if "c \<in> set encMap" for c
  proof -
    from that obtain k where k: "k < 32" "c = encMap ! k"
      by (auto simp: in_set_conv_nth length_encMap)
    then have "decMap ! unat c = of_nat k" by (simp only: decMap_encMap)
    with k show ?thesis
      by (simp add: unat_small_byte index_def length_encMap)
  qed
  have c: "decMap ! unat c = 255 \<and> 32 \<le> decMap ! unat c" if "c \<notin> set encMap" for c
    using that by (simp add: decMap_absent)
  from a b c length_encMap distinct_encMap encMap_eq length_decMap show ?thesis
    by (simp only: encMap_eq [symmetric]) blast
qed

theorem tables_inverse_witness:
  "(5 :: nat) < 32 \<and> index decMap (unat (encMap ! 5)) = Inr 5 \<and>
   (0x37 :: byte) \<in> set encMap \<and> index encMap (unat (decMap ! unat (0x37 :: byte))) = Inr 0x37 \<and>
   (0x38 :: byte) \<notin> set encMap \<and> decMap ! unat (0x38 :: byte) = 255"
proof -
  have v: "(5 :: nat) < 32" by simp
  have m: "(0x37 :: byte) \<in> set encMap"
    by (simp add: encMap_eq bytes_of_string_def StdEncoding_def)
  have o: "(0x38 :: byte) \<notin> set encMap"
    by (simp add: encMap_eq bytes_of_string_def StdEncoding_def)
  have five: "(of_nat 5 :: byte) = 5" by simp
  from tables_inverse v m o show ?thesis
    unfolding five [symmetric] by blast
qed

section \<open>Bounds and frame\<close>

text \<open>
  C8. With at least 13 slots \<open>EncodeUint64\<close> does not panic and overwrites exactly positions
  0 to 12: its result is 13 bytes that depend on \<open>n\<close> alone, followed by the destination
  from position 13 on. With at least 13 elements \<open>DecodeUint64\<close> does not panic. With fewer
  than 13, each of the two panics with an index out of range.
\<close>

theorem bounds:
  "(\<exists>out. length out = 13 \<and>
      (\<forall>dst. 13 \<le> length dst \<longrightarrow> EncodeUint64 n dst = Inr (out @ drop 13 dst))) \<and>
   (\<forall>src. 13 \<le> length src \<longrightarrow> (\<exists>r. DecodeUint64 src = Inr r)) \<and>
   (\<forall>dst. length dst < 13 \<longrightarrow> EncodeUint64 n dst = Inl IndexOutOfRange) \<and>
   (\<forall>src. length src < 13 \<longrightarrow> DecodeUint64 src = Inl IndexOutOfRange)"
proof (intro conjI allI impI)
  define out where "out = [encMap ! unat (drop_bit 59 n),
           encMap ! unat ((drop_bit 54 n) AND 0x1f),
           encMap ! unat ((drop_bit 49 n) AND 0x1f),
           encMap ! unat ((drop_bit 44 n) AND 0x1f),
           encMap ! unat ((drop_bit 39 n) AND 0x1f),
           encMap ! unat ((drop_bit 34 n) AND 0x1f),
           encMap ! unat ((drop_bit 29 n) AND 0x1f),
           encMap ! unat ((drop_bit 24 n) AND 0x1f),
           encMap ! unat ((drop_bit 19 n) AND 0x1f),
           encMap ! unat ((drop_bit 14 n) AND 0x1f),
           encMap ! unat ((drop_bit 9 n) AND 0x1f),
           encMap ! unat ((drop_bit 4 n) AND 0x1f),
           encMap ! unat (push_bit 1 (n AND 0xf))]"
  have "length out = 13" by (simp add: out_def)
  moreover have "EncodeUint64 n dst = Inr (out @ drop 13 dst)" if "13 \<le> length dst" for dst
    unfolding out_def using that by (rule EncodeUint64_list)
  ultimately show "\<exists>out. length out = 13 \<and>
      (\<forall>dst. 13 \<le> length dst \<longrightarrow> EncodeUint64 n dst = Inr (out @ drop 13 dst))"
    by blast
next
  fix src :: "byte list"
  assume "13 \<le> length src"
  then show "\<exists>r. DecodeUint64 src = Inr r"
    by (simp only: DecodeUint64_closed) blast
next
  fix dst :: "byte list"
  assume "length dst < 13"
  then show "EncodeUint64 n dst = Inl IndexOutOfRange"
    by (rule EncodeUint64_short)
next
  fix src :: "byte list"
  assume "length src < 13"
  then show "DecodeUint64 src = Inl IndexOutOfRange"
    by (rule DecodeUint64_short)
qed

theorem bounds_witness:
  "13 \<le> length (replicate 14 (7 :: byte)) \<and>
   (\<exists>out. length out = 13 \<and>
      EncodeUint64 5 (replicate 14 7) = Inr (out @ drop 13 (replicate 14 7))) \<and>
   13 \<le> length (bytes_of_string ''aebagbafaydqq'') \<and>
   (\<exists>r. DecodeUint64 (bytes_of_string ''aebagbafaydqq'') = Inr r) \<and>
   length (replicate 12 (7 :: byte)) < 13 \<and>
   EncodeUint64 5 (replicate 12 7) = Inl IndexOutOfRange \<and>
   length (bytes_of_string ''aebagbafaydq'') < 13 \<and>
   DecodeUint64 (bytes_of_string ''aebagbafaydq'') = Inl IndexOutOfRange"
proof -
  have l1: "13 \<le> length (replicate 14 (7 :: byte))" by simp
  have l2: "13 \<le> length (bytes_of_string ''aebagbafaydqq'')"
    by (simp add: bytes_of_string_def)
  have l3: "length (replicate 12 (7 :: byte)) < 13" by simp
  have l4: "length (bytes_of_string ''aebagbafaydq'') < 13"
    by (simp add: bytes_of_string_def)
  from bounds [of 5] l1 l2 l3 l4 show ?thesis
    by blast
qed

text \<open>
  C10. On a destination longer than 13 bytes \<open>EncodeUint64\<close> keeps the length and leaves
  every byte at index 13 and beyond as it was.
\<close>

theorem frame:
  "13 < length dst \<Longrightarrow>
   \<exists>buf. EncodeUint64 n dst = Inr buf \<and> length buf = length dst \<and>
     (\<forall>i. 13 \<le> i \<and> i < length dst \<longrightarrow> buf ! i = dst ! i)"
proof -
  assume "13 < length dst"
  then have len: "13 \<le> length dst" by simp
  show ?thesis
    unfolding EncodeUint64_closed [OF len] using len by simp
qed

theorem frame_witness:
  "13 < length (replicate 15 (1 :: byte)) \<and>
   (\<exists>buf. EncodeUint64 5 (replicate 15 1) = Inr buf \<and> length buf = 15 \<and> buf ! 14 = 1)"
proof -
  have len: "13 < length (replicate 15 (1 :: byte))" by simp
  from frame [OF len, of 5] obtain buf where
    b: "EncodeUint64 5 (replicate 15 1) = Inr buf" "length buf = length (replicate 15 (1 :: byte))"
      "\<forall>i. 13 \<le> i \<and> i < length (replicate 15 (1 :: byte)) \<longrightarrow> buf ! i = replicate 15 1 ! i"
    by blast
  from b(3) have "buf ! 14 = replicate 15 1 ! 14" by simp
  with b(1,2) len show ?thesis by simp
qed

end
